theory Spec2Isabelle
  imports Main "HOL-Library.AList" "HOL-Library.Word"
begin

section \<open>Python values\<close>

text \<open>
  The proxy works on decoded JSON. A Python \<open>str\<close> is modelled by its UTF-8 bytes
  (concatenation, equality and emptiness agree with the code-point view); header
  strings are latin-1 decoded, one byte per character. A \<open>dict\<close> is an association
  list in insertion order; \<open>d.get(k)\<close> reads the first binding and \<open>d[k] = v\<close>
  overwrites in place or appends, which is what \<open>AList.update\<close> does.
\<close>

datatype json =
    JNull
  | JBool bool
  | JInt int
  | JFloat "64 word"
  | JStr string
  | JArr "json list"
  | JObj "(string \<times> json) list"

type_synonym pydict = "(string \<times> json) list"
type_synonym message = pydict

text \<open>Exceptions carry the text that \<open>str(e)\<close> yields; \<open>OCRError\<close> also its image index.\<close>

datatype exc =
    AttributeError string
  | TypeError string
  | KeyError string
  | IndexError string
  | JSONDecodeError string
  | OCRError string int

definition dict_get :: "pydict \<Rightarrow> string \<Rightarrow> json" where
  "dict_get d k = (case map_of d k of None \<Rightarrow> JNull | Some v \<Rightarrow> v)"

definition dict_get_default :: "pydict \<Rightarrow> string \<Rightarrow> json \<Rightarrow> json" where
  "dict_get_default d k dflt = (case map_of d k of None \<Rightarrow> dflt | Some v \<Rightarrow> v)"

definition dict_set :: "pydict \<Rightarrow> string \<Rightarrow> json \<Rightarrow> pydict" where
  "dict_set d k v = AList.update k v d"

text \<open>The name Python prints for the type of a value in an error message.\<close>

fun type_name :: "json \<Rightarrow> string" where
  "type_name JNull = ''NoneType''"
| "type_name (JBool _) = ''bool''"
| "type_name (JInt _) = ''int''"
| "type_name (JFloat _) = ''float''"
| "type_name (JStr _) = ''str''"
| "type_name (JArr _) = ''list''"
| "type_name (JObj _) = ''dict''"

text \<open>\<open>x.get(k)\<close> and \<open>x.get(k, dflt)\<close> on a value that need not be a dict.\<close>

definition SQ :: string where
  "SQ = [CHR 0x27]"

definition no_attribute_get :: "json \<Rightarrow> exc" where
  "no_attribute_get x =
     AttributeError (SQ @ type_name x @ SQ @ '' object has no attribute '' @ SQ @ ''get'' @ SQ)"

fun item_get :: "json \<Rightarrow> string \<Rightarrow> exc + json" where
  "item_get (JObj d) k = Inr (dict_get d k)"
| "item_get x k = Inl (no_attribute_get x)"

fun item_get_default :: "json \<Rightarrow> string \<Rightarrow> json \<Rightarrow> exc + json" where
  "item_get_default (JObj d) k dflt = Inr (dict_get_default d k dflt)"
| "item_get_default x k dflt = Inl (no_attribute_get x)"

definition NL :: string where
  "NL = [CHR 0x0A]"

definition digit_char :: "nat \<Rightarrow> char" where
  "digit_char n = ''0123456789'' ! n"

fun str_nat :: "nat \<Rightarrow> string" where
  "str_nat n = (if n < 10 then [digit_char n] else str_nat (n div 10) @ [digit_char (n mod 10)])"

declare str_nat.simps [simp del]

definition str_int :: "int \<Rightarrow> string" where
  "str_int i = (if i < 0 then ''-'' @ str_nat (nat (- i)) else str_nat (nat i))"

section \<open>message_utils.py\<close>

text \<open>The label \<open>f"\<dots>{image_num}\<dots>({ocr_text})"\<close>; the CJK characters are written as UTF-8 bytes.\<close>

definition label_prefix :: string where
  "label_prefix = [CHR 0xE5, CHR 0x9B, CHR 0xBE, CHR 0xE7, CHR 0x89, CHR 0x87]"

definition label_infix :: string where
  "label_infix = [CHR 0xE5, CHR 0x86, CHR 0x85, CHR 0xE5, CHR 0xAE, CHR 0xB9, CHR 0xEF, CHR 0xBC, CHR 0x9A]"

definition format_line :: "int \<times> string \<Rightarrow> string" where
  "format_line r = label_prefix @ str_int (fst r) @ label_infix @ ''('' @ snd r @ '')''"

fun join_str :: "string \<Rightarrow> string list \<Rightarrow> string" where
  "join_str sep [] = []"
| "join_str sep [x] = x"
| "join_str sep (x # y # ys) = x @ sep @ join_str sep (y # ys)"

definition format_ocr_results :: "(int \<times> string) list \<Rightarrow> string" where
  "format_ocr_results ocr_results =
     (if ocr_results = [] then [] else join_str NL (map format_line ocr_results))"

text \<open>
  An image reference \<open>(message_index, content_index, item)\<close>. The indices are those that
  \<open>enumerate\<close> yields, so they are natural numbers; a negative coordinate in \<open>images\<close>
  could never match one.
\<close>

type_synonym image_ref = "nat \<times> nat \<times> json"

definition images_to_remove :: "image_ref list \<Rightarrow> (nat \<times> nat) set" where
  "images_to_remove images = set (map (\<lambda>(msg_idx, content_idx, _). (msg_idx, content_idx)) images)"

text \<open>The inner loop of \<open>rebuild_messages\<close>: keep the items whose coordinate is not to be removed.\<close>

fun filter_content :: "(nat \<times> nat) set \<Rightarrow> nat \<Rightarrow> nat \<Rightarrow> json list \<Rightarrow> json list" where
  "filter_content rm msg_idx content_idx [] = []"
| "filter_content rm msg_idx content_idx (item # items) =
     (if (msg_idx, content_idx) \<notin> rm
      then item # filter_content rm msg_idx (Suc content_idx) items
      else filter_content rm msg_idx (Suc content_idx) items)"

text \<open>Lines 66 to 71: the new value of \<open>message["content"]\<close>, or the exception of \<open>.get\<close>.\<close>

definition simplify_content :: "json list \<Rightarrow> exc + json" where
  "simplify_content new_content =
     (if length new_content = 0 then Inr (JStr [])
      else if length new_content = 1 then
        (case item_get (new_content ! 0) ''type'' of
           Inl e \<Rightarrow> Inl e
         | Inr t \<Rightarrow>
             if t = JStr ''text'' then item_get_default (new_content ! 0) ''text'' (JStr [])
             else Inr (JArr new_content))
      else Inr (JArr new_content))"

definition rebuild_message :: "(nat \<times> nat) set \<Rightarrow> nat \<Rightarrow> message \<Rightarrow> exc + message" where
  "rebuild_message rm msg_idx message =
     (case dict_get message ''content'' of
        JArr content \<Rightarrow>
          (case simplify_content (filter_content rm msg_idx 0 content) of
             Inl e \<Rightarrow> Inl e
           | Inr c \<Rightarrow> Inr (dict_set message ''content'' c))
      | _ \<Rightarrow> Inr message)"

text \<open>The loop over the messages; an exception leaves the function at once.\<close>

fun remove_images :: "(nat \<times> nat) set \<Rightarrow> nat \<Rightarrow> message list \<Rightarrow> exc + message list" where
  "remove_images rm msg_idx [] = Inr []"
| "remove_images rm msg_idx (message # rest) =
     (case rebuild_message rm msg_idx message of
        Inl e \<Rightarrow> Inl e
      | Inr m \<Rightarrow>
          (case remove_images rm (Suc msg_idx) rest of
             Inl e \<Rightarrow> Inl e
           | Inr ms \<Rightarrow> Inr (m # ms)))"

text \<open>The scan \<open>for idx in range(len(new_messages) - 1, -1, -1)\<close>; \<open>-1\<close> when nothing is found.\<close>

fun last_user_from :: "message list \<Rightarrow> nat \<Rightarrow> int" where
  "last_user_from new_messages 0 = - 1"
| "last_user_from new_messages (Suc idx) =
     (if dict_get (new_messages ! idx) ''role'' = JStr ''user'' then int idx
      else last_user_from new_messages idx)"

definition ocr_text_item :: "string \<Rightarrow> json" where
  "ocr_text_item ocr_text = JObj [(''type'', JStr ''text''), (''text'', JStr (NL @ NL @ ocr_text))]"

definition append_ocr_text :: "message list \<Rightarrow> string \<Rightarrow> message list" where
  "append_ocr_text new_messages ocr_text =
     (if ocr_text \<noteq> [] then
        (let last_user_idx = last_user_from new_messages (length new_messages) in
         if last_user_idx \<ge> 0 then
           (let i = nat last_user_idx;
                current_content = dict_get_default (new_messages ! i) ''content'' (JStr [])
            in case current_content of
                 JStr s \<Rightarrow>
                   (if s \<noteq> []
                    then new_messages[i := dict_set (new_messages ! i) ''content'' (JStr (s @ NL @ NL @ ocr_text))]
                    else new_messages[i := dict_set (new_messages ! i) ''content'' (JStr ocr_text)])
               | JArr l \<Rightarrow>
                   new_messages[i := dict_set (new_messages ! i) ''content'' (JArr (l @ [ocr_text_item ocr_text]))]
               | _ \<Rightarrow> new_messages)
         else new_messages @ [[(''role'', JStr ''user''), (''content'', JStr ocr_text)]])
      else new_messages)"

definition rebuild_messages :: "message list \<Rightarrow> image_ref list \<Rightarrow> string \<Rightarrow> exc + message list" where
  "rebuild_messages messages images ocr_text =
     (case remove_images (images_to_remove images) 0 messages of
        Inl e \<Rightarrow> Inl e
      | Inr new_messages \<Rightarrow> Inr (append_ocr_text new_messages ocr_text))"

text \<open>\<open>isinstance(item, dict) and item.get("type") == "image_url"\<close>\<close>

fun is_image_item :: "json \<Rightarrow> bool" where
  "is_image_item (JObj d) = (dict_get d ''type'' = JStr ''image_url'')"
| "is_image_item _ = False"

fun has_images :: "message list \<Rightarrow> bool" where
  "has_images [] = False"
| "has_images (message # rest) =
     (case dict_get message ''content'' of
        JArr content \<Rightarrow> if list_ex is_image_item content then True else has_images rest
      | _ \<Rightarrow> has_images rest)"

section \<open>ocr.py: extract_images\<close>

fun extract_content :: "nat \<Rightarrow> nat \<Rightarrow> json list \<Rightarrow> image_ref list" where
  "extract_content msg_idx content_idx [] = []"
| "extract_content msg_idx content_idx (item # items) =
     (if is_image_item item
      then (msg_idx, content_idx, item) # extract_content msg_idx (Suc content_idx) items
      else extract_content msg_idx (Suc content_idx) items)"

fun extract_from :: "nat \<Rightarrow> message list \<Rightarrow> image_ref list" where
  "extract_from msg_idx [] = []"
| "extract_from msg_idx (message # rest) =
     (case dict_get message ''content'' of
        JArr content \<Rightarrow> extract_content msg_idx 0 content @ extract_from (Suc msg_idx) rest
      | _ \<Rightarrow> extract_from (Suc msg_idx) rest)"

definition extract_images :: "message list \<Rightarrow> image_ref list" where
  "extract_images messages = extract_from 0 messages"

section \<open>ocr.py: call_ocr and process_images\<close>

record config =
  OCR_ENDPOINT :: string
  OCR_API_KEY :: string
  OCR_MODEL_NAME :: string
  OCR_PARALLEL :: bool
  OCR_PROMPT :: string
  OCR_TIMEOUT :: int
  UPSTREAM_TIMEOUT :: int

text \<open>
  What \<open>call_ocr\<close> reads of the response to its POST: \<open>response.status_code\<close>,
  \<open>response.text\<close>, and what \<open>response.json()\<close> does (the parsed value, or the message
  of the decoder's \<open>JSONDecodeError\<close>).
\<close>

record http_response =
  status_code :: int
  response_text :: string
  json_result :: "string + json"

datatype http_outcome =
    TimeoutException
  | RequestError string
  | Responded http_response

fun then_do :: "exc + 'a \<Rightarrow> ('a \<Rightarrow> exc + 'b) \<Rightarrow> exc + 'b" where
  "then_do (Inl e) f = Inl e"
| "then_do (Inr x) f = f x"

definition not_subscriptable :: "json \<Rightarrow> exc" where
  "not_subscriptable x = TypeError (SQ @ type_name x @ SQ @ '' object is not subscriptable'')"

text \<open>\<open>x[k]\<close> for a string key \<open>k\<close>.\<close>

fun subscript_key :: "json \<Rightarrow> string \<Rightarrow> exc + json" where
  "subscript_key (JObj d) k = (case map_of d k of None \<Rightarrow> Inl (KeyError (SQ @ k @ SQ)) | Some v \<Rightarrow> Inr v)"
| "subscript_key (JArr xs) k = Inl (TypeError ''list indices must be integers or slices, not str'')"
| "subscript_key (JStr s) k = Inl (TypeError (''string indices must be integers, not '' @ SQ @ ''str'' @ SQ))"
| "subscript_key x k = Inl (not_subscriptable x)"

definition utf8_continuation :: "char \<Rightarrow> bool" where
  "utf8_continuation c = (128 \<le> (of_char c :: nat) \<and> (of_char c :: nat) < 192)"

text \<open>\<open>x[0]\<close>; the keys of a decoded JSON object are strings, so \<open>0\<close> is never one.\<close>

fun subscript_zero :: "json \<Rightarrow> exc + json" where
  "subscript_zero (JArr []) = Inl (IndexError ''list index out of range'')"
| "subscript_zero (JArr (x # xs)) = Inr x"
| "subscript_zero (JObj d) = Inl (KeyError ''0'')"
| "subscript_zero (JStr []) = Inl (IndexError ''string index out of range'')"
| "subscript_zero (JStr (c # cs)) = Inr (JStr (c # takeWhile utf8_continuation cs))"
| "subscript_zero x = Inl (not_subscriptable x)"

text \<open>\<open>result["choices"][0]["message"]["content"]\<close>\<close>

definition ocr_text_of :: "json \<Rightarrow> exc + json" where
  "ocr_text_of result =
     then_do (subscript_key result ''choices'') (\<lambda>choices.
     then_do (subscript_zero choices) (\<lambda>choice.
     then_do (subscript_key choice ''message'') (\<lambda>msg.
     subscript_key msg ''content'')))"

text \<open>
  \<open>call_ocr\<close> sends one POST; its last argument is what came of that POST. The request
  itself (payload and headers) does not enter the result.
\<close>

definition call_ocr :: "config \<Rightarrow> json \<Rightarrow> int \<Rightarrow> http_outcome \<Rightarrow> exc + json" where
  "call_ocr cfg image_content image_index outcome =
     (case outcome of
        TimeoutException \<Rightarrow>
          Inl (OCRError (''OCR request timed out after '' @ str_int (OCR_TIMEOUT cfg) @ ''s'') image_index)
      | RequestError e \<Rightarrow> Inl (OCRError (''OCR request failed: '' @ e) image_index)
      | Responded response \<Rightarrow>
          if status_code response \<noteq> 200 then
            Inl (OCRError (''OCR API returned status '' @ str_int (status_code response) @ '': ''
                           @ response_text response) image_index)
          else
            (case json_result response of
               Inl m \<Rightarrow> Inl (JSONDecodeError m)
             | Inr result \<Rightarrow>
                 (case ocr_text_of result of
                    Inr ocr_text \<Rightarrow> Inr ocr_text
                  | Inl (KeyError m) \<Rightarrow> Inl (OCRError (''Invalid OCR response format: '' @ m) image_index)
                  | Inl (IndexError m) \<Rightarrow> Inl (OCRError (''Invalid OCR response format: '' @ m) image_index)
                  | Inl e \<Rightarrow> Inl e)))"

fun exc_str :: "exc \<Rightarrow> string" where
  "exc_str (AttributeError m) = m"
| "exc_str (TypeError m) = m"
| "exc_str (KeyError m) = m"
| "exc_str (IndexError m) = m"
| "exc_str (JSONDecodeError m) = m"
| "exc_str (OCRError m i) = m"

text \<open>
  The task list of the parallel branch: task \<open>idx\<close> is \<open>call_ocr(img[2], idx + 1)\<close>, and
  \<open>outcome_of idx\<close> is what comes of its POST.
\<close>

fun ocr_tasks :: "config \<Rightarrow> nat \<Rightarrow> image_ref list \<Rightarrow> (nat \<Rightarrow> http_outcome) \<Rightarrow> (exc + json) list" where
  "ocr_tasks cfg idx [] outcome_of = []"
| "ocr_tasks cfg idx (img # rest) outcome_of =
     call_ocr cfg (snd (snd img)) (int idx + 1) (outcome_of idx) # ocr_tasks cfg (Suc idx) rest outcome_of"

text \<open>
  \<open>asyncio.gather(*tasks, return_exceptions=True)\<close>: each task stores its result or
  exception in its own slot when it settles; \<open>completion\<close> lists the tasks in the order
  in which they settle. A slot still empty means that the gather has not returned.
\<close>

definition gather :: "'a list \<Rightarrow> nat list \<Rightarrow> 'a option list" where
  "gather tasks completion =
     fold (\<lambda>k slots. slots[k := Some (tasks ! k)]) completion (replicate (length tasks) None)"

text \<open>The loop over the gathered results: the first exception in list order is raised.\<close>

fun raised_for :: "nat \<Rightarrow> exc \<Rightarrow> exc" where
  "raised_for idx (OCRError m i) = OCRError m i"
| "raised_for idx e =
     OCRError (''OCR failed for image '' @ str_int (int idx + 1) @ '': '' @ exc_str e) (int idx + 1)"

fun check_results :: "nat \<Rightarrow> (exc + json) list \<Rightarrow> exc + (int \<times> json) list" where
  "check_results idx [] = Inr []"
| "check_results idx (result # rest) =
     (case result of
        Inl e \<Rightarrow> Inl (raised_for idx e)
      | Inr r \<Rightarrow>
          (case check_results (Suc idx) rest of
             Inl e \<Rightarrow> Inl e
           | Inr rs \<Rightarrow> Inr ((int idx + 1, r) # rs)))"

fun process_serial :: "config \<Rightarrow> nat \<Rightarrow> image_ref list \<Rightarrow> (nat \<Rightarrow> http_outcome) \<Rightarrow> exc + (int \<times> json) list" where
  "process_serial cfg idx [] outcome_of = Inr []"
| "process_serial cfg idx ((msg_idx, content_idx, image_content) # rest) outcome_of =
     (case call_ocr cfg image_content (int idx + 1) (outcome_of idx) of
        Inl e \<Rightarrow> Inl e
      | Inr result \<Rightarrow>
          (case process_serial cfg (Suc idx) rest outcome_of of
             Inl e \<Rightarrow> Inl e
           | Inr rs \<Rightarrow> Inr ((int idx + 1, result) # rs)))"

text \<open>\<open>None\<close>: the gather is still waiting for a call that has not settled.\<close>

definition process_images ::
  "config \<Rightarrow> image_ref list \<Rightarrow> (nat \<Rightarrow> http_outcome) \<Rightarrow> nat list \<Rightarrow> (exc + (int \<times> json) list) option" where
  "process_images cfg images outcome_of completion =
     (if images = [] then Some (Inr [])
      else if OCR_PARALLEL cfg then
        (let results = gather (ocr_tasks cfg 0 images outcome_of) completion
         in if list_all (\<lambda>slot. slot \<noteq> None) results
            then Some (check_results 0 (map the results))
            else None)
      else Some (process_serial cfg 0 images outcome_of))"

section \<open>proxy.py\<close>

text \<open>\<open>str.lower()\<close> on a latin-1 decoded header name.\<close>

definition lower_char :: "char \<Rightarrow> char" where
  "lower_char c =
     (let n = (of_char c :: nat)
      in if (65 \<le> n \<and> n \<le> 90) \<or> (192 \<le> n \<and> n \<le> 222 \<and> n \<noteq> 215) then char_of (n + 32) else c)"

definition lower :: "string \<Rightarrow> string" where
  "lower s = map lower_char s"

definition startswith :: "string \<Rightarrow> string \<Rightarrow> bool" where
  "startswith s p = (take (length p) s = p)"

definition endswith :: "string \<Rightarrow> string \<Rightarrow> bool" where
  "endswith s p = (length p \<le> length s \<and> drop (length s - length p) s = p)"

type_synonym header_items = "(string \<times> string) list"

text \<open>
  \<open>request.headers.get(name)\<close> on the headers of the inbound request: the lookup ignores
  case and returns the first item of that name.
\<close>

fun headers_get :: "header_items \<Rightarrow> string \<Rightarrow> string option" where
  "headers_get [] name = None"
| "headers_get ((key, v) # rest) name =
     (if lower key = lower name then Some v else headers_get rest name)"

datatype request_body = Json_Body pydict | Raw_Body string

record upstream_call =
  call_method :: string
  call_url :: string
  call_params :: string
  call_headers :: header_items
  call_body :: request_body
  call_stream :: bool

text \<open>
  The URL the client requests. \<open>forward_chat_request\<close>, the only function here that
  builds a call, passes no \<open>params\<close>, and then the URL is \<open>call_url\<close> as it is; the
  second case stands for a query string handed over as \<open>params\<close>.
\<close>

definition effective_url :: "upstream_call \<Rightarrow> string" where
  "effective_url c = (if call_params c = [] then call_url c else call_url c @ ''?'' @ call_params c)"

fun truthy :: "json \<Rightarrow> bool" where
  "truthy JNull = False"
| "truthy (JBool b) = b"
| "truthy (JInt i) = (i \<noteq> 0)"
| "truthy (JFloat w) = (w \<noteq> 0 \<and> w \<noteq> 0x8000000000000000)"
| "truthy (JStr s) = (s \<noteq> [])"
| "truthy (JArr xs) = (xs \<noteq> [])"
| "truthy (JObj d) = (d \<noteq> [])"

text \<open>
  \<open>forward_chat_request\<close>: both \<open>non_stream_response\<close> and \<open>stream_response\<close> issue
  \<open>POST url\<close> with \<open>json=payload\<close> and these headers, and neither passes \<open>params\<close>.
\<close>

definition forward_chat_request :: "string \<Rightarrow> pydict \<Rightarrow> string option \<Rightarrow> upstream_call" where
  "forward_chat_request upstream_url payload authorization =
     \<lparr>call_method = ''POST'',
      call_url = upstream_url,
      call_params = [],
      call_headers =
        (case authorization of
           None \<Rightarrow> [(''Content-Type'', ''application/json'')]
         | Some a \<Rightarrow>
             if a \<noteq> [] then [(''Content-Type'', ''application/json''), (''Authorization'', a)]
             else [(''Content-Type'', ''application/json'')]),
      call_body = Json_Body payload,
      call_stream = truthy (dict_get_default payload ''stream'' (JBool False))\<rparr>"

text \<open>
  The inbound request: the method, the \<open>path\<close> parameter of the route, the query string,
  the header fields as \<open>request.headers.items()\<close> lists them (one item for every field
  received, a repeated name several times), and the body.
\<close>

record request =
  req_method :: string
  req_path :: string
  query_params :: string
  req_headers :: header_items
  req_body :: string

text \<open>
  The header loop at the start of \<open>passthrough\<close> (lines 108 to 111). It fills the dict
  that is handed to the client as the \<open>headers\<close> of the upstream request.
\<close>

definition forward_headers :: "header_items \<Rightarrow> header_items" where
  "forward_headers items =
     fold (\<lambda>(key, v) headers.
             if lower key \<notin> set [''host'', ''content-length''] then AList.update key v headers else headers)
          items []"

section \<open>main.py\<close>

definition parse_upstream_url :: "string \<Rightarrow> string option" where
  "parse_upstream_url path =
     (let path' = (if startswith path ''/'' then drop 1 path else path)
      in if \<not> (startswith path' ''http://'' \<or> startswith path' ''https://'') then None else Some path')"

definition rstrip_slash :: "string \<Rightarrow> string" where
  "rstrip_slash url = rev (dropWhile (\<lambda>c. c = CHR ''/'') (rev url))"

definition is_chat_completions_path :: "string \<Rightarrow> bool" where
  "is_chat_completions_path url = endswith (rstrip_slash url) ''v1/chat/completions''"

text \<open>
  The routing of \<open>proxy_handler\<close>: it raises the HTTP error 400, or calls
  \<open>handle_chat_completions\<close> with the upstream URL and the authorization header, or calls
  \<open>passthrough\<close> with the upstream URL. \<open>full_path\<close>, the only place where the handler
  joins the query string to the path, is assigned and never read. Both calls of
  \<open>forward_chat_request\<close> in \<open>handle_chat_completions\<close> pass \<open>upstream_url\<close> on as it is.
\<close>

datatype dispatch =
    HTTP_Exception int string
  | Handle_Chat_Completions string "string option"
  | Passthrough string

definition proxy_handler :: "request \<Rightarrow> dispatch" where
  "proxy_handler req =
     (case parse_upstream_url (req_path req) of
        None \<Rightarrow>
          HTTP_Exception 400
            ''Invalid upstream URL in path. Expected format: /http://host/path or /https://host/path''
      | Some upstream_url \<Rightarrow>
          if is_chat_completions_path upstream_url \<and> req_method req = ''POST''
          then Handle_Chat_Completions upstream_url (headers_get (req_headers req) ''Authorization'')
          else Passthrough upstream_url)"

section \<open>Vocabulary of the specification and example data\<close>

text \<open>
  The content items of the specification's data model: an item is a dict, and the
  \<open>text\<close> of a text item, when it has one, is a string.
\<close>

fun is_dict :: "json \<Rightarrow> bool" where
  "is_dict (JObj d) = True"
| "is_dict _ = False"

fun is_str :: "json \<Rightarrow> bool" where
  "is_str (JStr s) = True"
| "is_str _ = False"

fun content_item :: "json \<Rightarrow> bool" where
  "content_item (JObj d) =
     (dict_get d ''type'' \<noteq> JStr ''text'' \<or> is_str (dict_get_default d ''text'' (JStr [])))"
| "content_item _ = False"

definition content_items_ok :: "message list \<Rightarrow> bool" where
  "content_items_ok messages =
     list_all (\<lambda>message. case dict_get message ''content'' of
                            JArr content \<Rightarrow> list_all content_item content
                          | _ \<Rightarrow> True) messages"

text \<open>
  The content shape after filtering, in the words of the specification: an empty list
  becomes the empty string, a single text item becomes its text, anything else stays
  the list.
\<close>

fun normalised_content :: "json list \<Rightarrow> json" where
  "normalised_content [] = JStr []"
| "normalised_content [JObj d] =
     (if dict_get d ''type'' = JStr ''text'' then dict_get_default d ''text'' (JStr []) else JArr [JObj d])"
| "normalised_content remaining = JArr remaining"

text \<open>The last message whose role is \<open>user\<close>.\<close>

definition is_last_user :: "message list \<Rightarrow> nat \<Rightarrow> bool" where
  "is_last_user messages i =
     (i < length messages \<and> dict_get (messages ! i) ''role'' = JStr ''user'' \<and>
      (\<forall>j. i < j \<and> j < length messages \<longrightarrow> dict_get (messages ! j) ''role'' \<noteq> JStr ''user''))"

text \<open>The order of image references: by message index, then by content index.\<close>

definition coord_less :: "image_ref \<Rightarrow> image_ref \<Rightarrow> bool" where
  "coord_less a b = (fst a < fst b \<or> (fst a = fst b \<and> fst (snd a) < fst (snd b)))"

text \<open>Messages, responses and requests at which the properties are instantiated.\<close>

definition image_item :: json where
  "image_item = JObj [(''type'', JStr ''image_url''), (''image_url'', JObj [(''url'', JStr ''data:,'')])]"

definition text_item :: "json \<Rightarrow> json" where
  "text_item t = JObj [(''type'', JStr ''text''), (''text'', t)]"

definition user_message :: "json \<Rightarrow> message" where
  "user_message c = [(''role'', JStr ''user''), (''content'', c)]"

definition system_message :: "json \<Rightarrow> message" where
  "system_message c = [(''role'', JStr ''system''), (''content'', c)]"

definition two_messages :: "message list" where
  "two_messages = [user_message (JStr ''hi''), user_message (JArr [text_item (JStr ''a''), image_item, image_item])]"

definition stray_string_messages :: "message list" where
  "stray_string_messages = [user_message (JArr [JStr ''foo'', image_item])]"

definition bare_string_messages :: "message list" where
  "bare_string_messages =
     [user_message (JArr [JStr ''note'']),
      user_message (JArr [text_item (JStr ''what is this''), image_item])]"

definition nested_image_messages :: "message list" where
  "nested_image_messages = [user_message (JArr [text_item (JArr [image_item]), image_item])]"

definition single_text_messages :: "message list" where
  "single_text_messages = [user_message (JArr [text_item (JStr ''hi'')])]"

definition mixed_messages :: "message list" where
  "mixed_messages =
     [system_message (JStr ''sys''),
      user_message (JArr [text_item (JStr ''look''), image_item]),
      user_message (JArr [image_item, text_item (JStr ''a''), text_item (JStr ''b'')])]"

text \<open>A list-typed content that the normalisation leaves as it is.\<close>

definition stable_content :: "json list \<Rightarrow> bool" where
  "stable_content content =
     (2 \<le> length content \<or> (\<exists>d. content = [JObj d] \<and> dict_get d ''type'' \<noteq> JStr ''text''))"

definition stable_messages :: "message list" where
  "stable_messages =
     [system_message (JStr ''sys''),
      user_message (JArr [text_item (JStr ''a''), image_item]),
      user_message (JArr [image_item])]"





definition test_config :: config where
  "test_config =
     \<lparr>OCR_ENDPOINT = ''http://localhost:8080/v1/chat/completions'', OCR_API_KEY = [],
      OCR_MODEL_NAME = ''gpt-4-vision'', OCR_PARALLEL = True, OCR_PROMPT = ''Describe this image'',
      OCR_TIMEOUT = 60, UPSTREAM_TIMEOUT = 300\<rparr>"

definition description_body :: "json \<Rightarrow> json" where
  "description_body d = JObj [(''choices'', JArr [JObj [(''message'', JObj [(''role'', JStr ''assistant''), (''content'', d)])]])]"

definition description_text :: "string \<Rightarrow> string" where
  "description_text d =
     ''{\"choices\": [{\"message\": {\"role\": \"assistant\", \"content\": \"'' @ d @ ''\"}}]}''"

definition ocr_response :: "int \<Rightarrow> string \<Rightarrow> string + json \<Rightarrow> http_response" where
  "ocr_response status body_text parsed =
     \<lparr>status_code = status, response_text = body_text, json_result = parsed\<rparr>"

definition described :: "int \<Rightarrow> string \<Rightarrow> http_response" where
  "described status d = ocr_response status (description_text d) (Inr (description_body (JStr d)))"

definition not_json :: "string + json" where
  "not_json = Inl ''Expecting value: line 1 column 1 (char 0)''"

definition three_images :: "image_ref list" where
  "three_images = [(0, 0, image_item), (0, 1, image_item), (2, 0, image_item)]"

definition fail_ok_fail :: "nat \<Rightarrow> http_outcome" where
  "fail_ok_fail k =
     (if k = 0 then TimeoutException
      else if k = 1 then Responded (described 200 ''a cat'')
      else Responded (ocr_response 500 ''down'' not_json))"

definition chat_request :: request where
  "chat_request =
     \<lparr>req_method = ''POST'', req_path = ''http://up/v1/chat/completions'',
      query_params = ''api-version=1'',
      req_headers = [(''host'', ''proxy''), (''content-type'', ''application/json'')],
      req_body = ''{}''\<rparr>"

definition models_request :: request where
  "models_request =
     \<lparr>req_method = ''GET'', req_path = ''http://up/v1/models'',
      query_params = [],
      req_headers = [(''host'', ''x''), (''accept'', ''text/html''), (''authorization'', ''Bearer t''),
                     (''accept'', ''application/json'')],
      req_body = []\<rparr>"








definition no_content_messages :: "message list" where
  "no_content_messages = [[(''role'', JStr ''user'')]]"

section \<open>Properties\<close>

lemmas example_defs = image_item_def text_item_def user_message_def system_message_def

subsection \<open>The removal pass of rebuild_messages\<close>

lemma filter_content_nths:
  "filter_content rm m c items = nths items {j. (m, c + j) \<notin> rm}"
proof (induction items arbitrary: c)
  case Nil
  then show ?case by simp
next
  case (Cons item items)
  show ?case by (simp add: nths_Cons Cons.IH)
qed

lemma nths_cong_below:
  "(\<And>j. j < length xs \<Longrightarrow> (j \<in> A) = (j \<in> B)) \<Longrightarrow> nths xs A = nths xs B"
proof (induction xs arbitrary: A B)
  case Nil
  then show ?case by simp
next
  case (Cons x xs)
  have "nths xs {j. Suc j \<in> A} = nths xs {j. Suc j \<in> B}"
    by (rule Cons.IH) (use Cons.prems in auto)
  moreover have "(0 \<in> A) = (0 \<in> B)" using Cons.prems by auto
  ultimately show ?case by (simp add: nths_Cons)
qed

lemma nths_filter_pred:
  "nths xs {j. \<not> P (xs ! j)} = filter (\<lambda>x. \<not> P x) xs"
proof (induction xs)
  case Nil
  then show ?case by simp
next
  case (Cons x xs)
  then show ?case by (simp add: nths_Cons)
qed

lemma simplify_content_error:
  "(simplify_content xs = Inl e) = (\<exists>x. xs = [x] \<and> \<not> is_dict x \<and> e = no_attribute_get x)"
proof (cases xs)
  case Nil
  then show ?thesis by (simp add: simplify_content_def)
next
  case (Cons x ys)
  show ?thesis
  proof (cases ys)
    case Nil
    with Cons show ?thesis
      by (cases x) (auto simp: simplify_content_def dict_get_def dict_get_default_def split: option.splits)
  next
    case (Cons y zs)
    with \<open>xs = x # ys\<close> show ?thesis by (simp add: simplify_content_def)
  qed
qed

lemma remove_images_Inr:
  "remove_images rm k ms = Inr r \<Longrightarrow>
     length r = length ms \<and> (\<forall>i<length ms. rebuild_message rm (k + i) (ms ! i) = Inr (r ! i))"
proof (induction ms arbitrary: k r)
  case Nil
  then show ?case by simp
next
  case (Cons message rest)
  from Cons.prems obtain m r' where
    m: "rebuild_message rm k message = Inr m" and
    r': "remove_images rm (Suc k) rest = Inr r'" and
    r: "r = m # r'"
    by (auto split: sum.splits)
  from Cons.IH[OF r'] have
    len: "length r' = length rest" and
    each: "\<forall>i<length rest. rebuild_message rm (Suc k + i) (rest ! i) = Inr (r' ! i)"
    by auto
  show ?case
  proof (intro conjI allI impI)
    show "length r = length (message # rest)" using len r by simp
  next
    fix i assume "i < length (message # rest)"
    then show "rebuild_message rm (k + i) ((message # rest) ! i) = Inr (r ! i)"
      using m each r by (cases i) auto
  qed
qed

lemma remove_images_total:
  "(\<And>i. i < length ms \<Longrightarrow> \<exists>m. rebuild_message rm (k + i) (ms ! i) = Inr m) \<Longrightarrow>
     \<exists>r. remove_images rm k ms = Inr r"
proof (induction ms arbitrary: k)
  case Nil
  then show ?case by simp
next
  case (Cons message rest)
  from Cons.prems[of 0] obtain m where m: "rebuild_message rm k message = Inr m" by auto
  have "\<exists>r. remove_images rm (Suc k) rest = Inr r"
  proof (rule Cons.IH)
    fix i assume "i < length rest"
    then show "\<exists>m. rebuild_message rm (Suc k + i) (rest ! i) = Inr m"
      using Cons.prems[of "Suc i"] by simp
  qed
  with m show ?case by auto
qed

lemma rebuild_message_error:
  "rebuild_message rm i message = Inl e \<Longrightarrow>
     \<exists>c x. dict_get message ''content'' = JArr c \<and> filter_content rm i 0 c = [x] \<and> \<not> is_dict x
        \<and> e = no_attribute_get x"
  by (cases "dict_get message ''content''")
     (auto simp: rebuild_message_def simplify_content_error split: sum.splits)

lemma remove_images_error:
  "i < length ms \<Longrightarrow> rebuild_message rm (k + i) (ms ! i) = Inl e \<Longrightarrow>
     \<exists>e'. remove_images rm k ms = Inl e'"
proof (induction ms arbitrary: k i)
  case Nil
  then show ?case by simp
next
  case (Cons message rest)
  show ?case
  proof (cases i)
    case 0
    with Cons.prems show ?thesis by simp
  next
    case (Suc j)
    with Cons.prems have "j < length rest" "rebuild_message rm (Suc k + j) (rest ! j) = Inl e" by auto
    from Cons.IH[OF this] show ?thesis by (auto split: sum.splits)
  qed
qed

lemma simplify_content_Inr:
  "simplify_content xs = Inr v \<Longrightarrow> v = normalised_content xs"
  by (induction xs rule: normalised_content.induct)
     (auto simp: simplify_content_def split: if_splits sum.splits)

lemma simplify_content_dicts:
  "list_all is_dict xs \<Longrightarrow> simplify_content xs = Inr (normalised_content xs)"
proof -
  assume a: "list_all is_dict xs"
  have "\<not> (\<exists>e. simplify_content xs = Inl e)"
    using a by (auto simp: simplify_content_error)
  then obtain v where "simplify_content xs = Inr v" by (cases "simplify_content xs") auto
  then show ?thesis using simplify_content_Inr by blast
qed

lemma dict_get_dict_set: "dict_get (dict_set d k v) k = v"
  by (simp add: dict_get_def dict_set_def update_conv')

lemma dict_set_same: "dict_get d k = v \<Longrightarrow> v \<noteq> JNull \<Longrightarrow> dict_set d k v = d"
  by (auto simp: dict_get_def dict_set_def split: option.splits intro: update_triv)

lemma rebuild_message_Inr:
  "rebuild_message rm i message = Inr m \<Longrightarrow>
     m = (case dict_get message ''content'' of
            JArr c \<Rightarrow> dict_set message ''content'' (normalised_content (nths c {j. (i, j) \<notin> rm}))
          | _ \<Rightarrow> message)"
  by (cases "dict_get message ''content''")
     (auto simp: rebuild_message_def filter_content_nths split: sum.splits dest: simplify_content_Inr)

lemma rebuild_messages_no_text:
  "rebuild_messages ms images [] = Inr r \<Longrightarrow>
     length r = length ms \<and>
     (\<forall>i<length ms. r ! i =
        (case dict_get (ms ! i) ''content'' of
           JArr c \<Rightarrow> dict_set (ms ! i) ''content''
                       (normalised_content (nths c {j. (i, j) \<notin> images_to_remove images}))
         | _ \<Rightarrow> ms ! i))"
proof -
  assume a: "rebuild_messages ms images [] = Inr r"
  then have rm: "remove_images (images_to_remove images) 0 ms = Inr r"
    by (auto simp: rebuild_messages_def append_ocr_text_def split: sum.splits)
  from remove_images_Inr[OF rm] have
    len: "length r = length ms" and
    each: "\<forall>i<length ms. rebuild_message (images_to_remove images) i (ms ! i) = Inr (r ! i)"
    by auto
  show ?thesis using len each rebuild_message_Inr by blast
qed

subsection \<open>The scan for the last user message\<close>

lemma last_user_from_none:
  "(last_user_from ms n = - 1) = (\<forall>j<n. dict_get (ms ! j) ''role'' \<noteq> JStr ''user'')"
proof (induction n)
  case 0
  then show ?case by simp
next
  case (Suc n)
  then show ?case by (auto simp: less_Suc_eq)
qed

lemma last_user_from_range: "last_user_from ms n = - 1 \<or> (0 \<le> last_user_from ms n \<and> last_user_from ms n < int n)"
  by (induction n) auto



lemma last_user_from_Some:
  "last_user_from ms n = int i \<Longrightarrow>
     i < n \<and> dict_get (ms ! i) ''role'' = JStr ''user'' \<and>
     (\<forall>j. i < j \<and> j < n \<longrightarrow> dict_get (ms ! j) ''role'' \<noteq> JStr ''user'')"
proof (induction n)
  case 0
  then show ?case by simp
next
  case (Suc n)
  show ?case
  proof (cases "dict_get (ms ! n) ''role'' = JStr ''user''")
    case True
    with Suc.prems have "i = n" by simp
    with True show ?thesis by auto
  next
    case False
    with Suc.prems have "last_user_from ms n = int i" by simp
    from Suc.IH[OF this] False show ?thesis by (auto simp: less_Suc_eq)
  qed
qed

lemma last_user_exists:
  assumes "j < length ms" and "dict_get (ms ! j) ''role'' = JStr ''user''"
  shows "\<exists>i. is_last_user ms i"
proof -
  have "last_user_from ms (length ms) \<noteq> - 1"
    using assms last_user_from_none[of ms "length ms"] by blast
  with last_user_from_range[of ms "length ms"] have "0 \<le> last_user_from ms (length ms)" by blast
  then obtain i where "last_user_from ms (length ms) = int i"
    using nonneg_int_cases by blast
  from last_user_from_Some[OF this] show ?thesis unfolding is_last_user_def by blast
qed

subsection \<open>extract_images\<close>

lemma set_extract_content:
  "set (extract_content m c items) =
     {(m, c + j, items ! j) | j. j < length items \<and> is_image_item (items ! j)}"
  by (induction items arbitrary: c) (auto simp: less_Suc_eq_0_disj)

lemma set_extract_from:
  "set (extract_from k ms) =
     {(k + i, j, content ! j) | i j content.
        i < length ms \<and> dict_get (ms ! i) ''content'' = JArr content \<and>
        j < length content \<and> is_image_item (content ! j)}"
proof (induction ms arbitrary: k)
  case Nil
  then show ?case by simp
next
  case (Cons message rest)
  show ?case
    by (cases "dict_get message ''content''")
       (auto simp: Cons.IH set_extract_content less_Suc_eq_0_disj)
qed

lemma sorted_extract_content:
  "sorted_wrt coord_less (extract_content m c items)"
  by (induction items arbitrary: c) (auto simp: set_extract_content coord_less_def)

lemma sorted_extract_from:
  "sorted_wrt coord_less (extract_from k ms)"
proof (induction ms arbitrary: k)
  case Nil
  then show ?case by simp
next
  case (Cons message rest)
  have "coord_less x y"
    if "x \<in> set (extract_content k 0 c)" and "y \<in> set (extract_from (Suc k) rest)" for x y c
    using that by (auto simp: set_extract_content set_extract_from coord_less_def)
  then show ?case
    by (cases "dict_get message ''content''")
       (auto simp: Cons.IH sorted_wrt_append sorted_extract_content)
qed

lemma set_extract_images:
  "set (extract_images ms) =
     {(i, j, content ! j) | i j content.
        i < length ms \<and> dict_get (ms ! i) ''content'' = JArr content \<and>
        j < length content \<and> is_image_item (content ! j)}"
  unfolding extract_images_def by (simp add: set_extract_from)

text \<open>
  Claim C7. \<open>extract_images\<close> returns exactly the \<open>image_url\<close> items that sit inside
  list-typed \<open>content\<close> fields, each with its message index and content index; the
  result is strictly increasing in (message index, content index), so no coordinate
  occurs twice; and a message whose content is a string contributes nothing. The
  function is pure, so the input is unchanged and equal inputs give equal results.
\<close>

theorem extract_images_positions:
  "set (extract_images ms) =
     {(i, j, content ! j) | i j content.
        i < length ms \<and> dict_get (ms ! i) ''content'' = JArr content \<and>
        j < length content \<and> is_image_item (content ! j)}
   \<and> sorted_wrt coord_less (extract_images ms)
   \<and> (\<forall>i s. i < length ms \<and> dict_get (ms ! i) ''content'' = JStr s
         \<longrightarrow> (\<forall>x \<in> set (extract_images ms). fst x \<noteq> i))"
proof (intro conjI allI impI)
  show "set (extract_images ms) =
     {(i, j, content ! j) | i j content.
        i < length ms \<and> dict_get (ms ! i) ''content'' = JArr content \<and>
        j < length content \<and> is_image_item (content ! j)}"
    by (rule set_extract_images)
next
  show "sorted_wrt coord_less (extract_images ms)"
    unfolding extract_images_def by (rule sorted_extract_from)
next
  fix i s
  assume a: "i < length ms \<and> dict_get (ms ! i) ''content'' = JStr s"
  show "\<forall>x \<in> set (extract_images ms). fst x \<noteq> i"
  proof
    fix x assume "x \<in> set (extract_images ms)"
    then obtain i' j content where
      "x = (i', j, content ! j)" "dict_get (ms ! i') ''content'' = JArr content"
      unfolding set_extract_images by blast
    with a show "fst x \<noteq> i" by auto
  qed
qed

theorem extract_images_positions_witness:
  "0 < length two_messages \<and> dict_get (two_messages ! 0) ''content'' = JStr ''hi''
   \<and> list_all (\<lambda>x. fst x \<noteq> 0) (extract_images two_messages)
   \<and> extract_images two_messages = [(1, 1, image_item), (1, 2, image_item)]"
proof -
  have h: "0 < length two_messages \<and> dict_get (two_messages ! 0) ''content'' = JStr ''hi''"
    by (simp add: two_messages_def example_defs dict_get_def)
  from extract_images_positions[of two_messages] h
  have "\<forall>x \<in> set (extract_images two_messages). fst x \<noteq> 0" by blast
  then have "list_all (\<lambda>x. fst x \<noteq> 0) (extract_images two_messages)"
    by (simp add: list_all_iff)
  moreover have "extract_images two_messages = [(1, 1, image_item), (1, 2, image_item)]"
    by (simp add: two_messages_def example_defs dict_get_def extract_images_def)
  ultimately show ?thesis using h by blast
qed

subsection \<open>Where rebuild_messages raises\<close>

lemma remove_images_error_kind:
  "remove_images rm k ms = Inl e \<Longrightarrow> \<exists>x. \<not> is_dict x \<and> e = no_attribute_get x"
proof (induction ms arbitrary: k)
  case Nil
  then show ?case by simp
next
  case (Cons message rest)
  show ?case
  proof (cases "rebuild_message rm k message")
    case (Inl e')
    with Cons.prems have "e' = e" by simp
    with Inl rebuild_message_error show ?thesis by blast
  next
    case (Inr m)
    with Cons.prems have "remove_images rm (Suc k) rest = Inl e" by (auto split: sum.splits)
    from Cons.IH[OF this] show ?thesis .
  qed
qed

text \<open>
  Claim C10. \<open>rebuild_messages\<close> is partial: whenever some message has list-typed
  content of which, after the filtering, exactly one item remains and that item is not a
  dict (a bare string, say), the call of \<open>.get\<close> on it raises \<open>AttributeError\<close> and no
  message list is returned.
\<close>

theorem rebuild_messages_raises:
  assumes "i < length messages"
    and "dict_get (messages ! i) ''content'' = JArr content"
    and "filter_content (images_to_remove images) i 0 content = [x]"
    and "\<not> is_dict x"
  shows "\<exists>m. rebuild_messages messages images ocr_text = Inl (AttributeError m)"
proof -
  have "simplify_content [x] = Inl (no_attribute_get x)"
    using assms(4) simplify_content_error by blast
  then have "rebuild_message (images_to_remove images) (0 + i) (messages ! i) = Inl (no_attribute_get x)"
    using assms(2,3) by (simp add: rebuild_message_def)
  from remove_images_error[OF assms(1) this]
  obtain e where e: "remove_images (images_to_remove images) 0 messages = Inl e" by blast
  from remove_images_error_kind[OF e] obtain y where "e = no_attribute_get y" by blast
  with e show ?thesis by (simp add: rebuild_messages_def no_attribute_get_def)
qed

lemmas eval_defs = dict_get_def dict_get_default_def dict_set_def rebuild_messages_def
  rebuild_message_def simplify_content_def images_to_remove_def extract_images_def
  append_ocr_text_def no_attribute_get_def SQ_def

theorem rebuild_messages_raises_witness:
  "0 < length stray_string_messages
   \<and> dict_get (stray_string_messages ! 0) ''content'' = JArr [JStr ''foo'', image_item]
   \<and> filter_content (images_to_remove (extract_images stray_string_messages)) 0 0
        [JStr ''foo'', image_item] = [JStr ''foo'']
   \<and> \<not> is_dict (JStr ''foo'')
   \<and> (\<exists>m. rebuild_messages stray_string_messages (extract_images stray_string_messages) [] =
          Inl (AttributeError m))"
proof -
  have 1: "0 < length stray_string_messages" by (simp add: stray_string_messages_def)
  have 2: "dict_get (stray_string_messages ! 0) ''content'' = JArr [JStr ''foo'', image_item]"
    by (simp add: stray_string_messages_def example_defs dict_get_def)
  have 3: "filter_content (images_to_remove (extract_images stray_string_messages)) 0 0
        [JStr ''foo'', image_item] = [JStr ''foo'']"
    by (simp add: stray_string_messages_def example_defs eval_defs)
  have 4: "\<not> is_dict (JStr ''foo'')" by simp
  from rebuild_messages_raises[OF 1 2 3 4, of "[]"] 1 2 3 4 show ?thesis by blast
qed

text \<open>
  Claim C3, at two user messages, the first with content \<open>["note"]\<close>, the second with a
  text item and an image: in the first message one item remains after the filtering and
  it carries no \<open>text\<close> tag, so the claim keeps the filtered list \<open>["note"]\<close> as its
  content; the code raises \<open>AttributeError\<close> instead and returns no messages.
\<close>

theorem rebuild_messages_bare_string_item:
  "extract_images bare_string_messages = [(1, 1, image_item)]
   \<and> filter_content (images_to_remove (extract_images bare_string_messages)) 0 0 [JStr ''note'']
       = [JStr ''note'']
   \<and> rebuild_messages bare_string_messages (extract_images bare_string_messages) ''a cat'' =
       Inl (AttributeError (SQ @ ''str'' @ SQ @ '' object has no attribute '' @ SQ @ ''get'' @ SQ))"
  by (simp add: bare_string_messages_def example_defs eval_defs)

subsection \<open>Extraction followed by rebuilding\<close>

lemma removal_matches_images:
  assumes "i < length ms" and "dict_get (ms ! i) ''content'' = JArr c"
  shows "nths c {j. (i, j) \<notin> images_to_remove (extract_images ms)} =
         nths c {j. (i, j, c ! j) \<notin> set (extract_images ms)}"
proof (rule nths_cong_below)
  fix j assume j: "j < length c"
  have "((i, j) \<in> images_to_remove (extract_images ms)) = ((i, j, c ! j) \<in> set (extract_images ms))"
    using assms j by (force simp: images_to_remove_def set_extract_images)
  then show "(j \<in> {j. (i, j) \<notin> images_to_remove (extract_images ms)}) =
             (j \<in> {j. (i, j, c ! j) \<notin> set (extract_images ms)})" by simp
qed

lemma extracted_are_images:
  assumes "i < length ms" and "dict_get (ms ! i) ''content'' = JArr c"
  shows "nths c {j. (i, j, c ! j) \<notin> set (extract_images ms)} = filter (\<lambda>x. \<not> is_image_item x) c"
proof -
  have "nths c {j. (i, j, c ! j) \<notin> set (extract_images ms)} = nths c {j. \<not> is_image_item (c ! j)}"
  proof (rule nths_cong_below)
    fix j assume j: "j < length c"
    have "((i, j, c ! j) \<in> set (extract_images ms)) = is_image_item (c ! j)"
      using assms j by (auto simp: set_extract_images)
    then show "(j \<in> {j. (i, j, c ! j) \<notin> set (extract_images ms)}) = (j \<in> {j. \<not> is_image_item (c ! j)})"
      by simp
  qed
  then show ?thesis by (simp add: nths_filter_pred)
qed

lemma content_item_is_dict: "content_item x \<Longrightarrow> is_dict x"
  by (cases x) auto

lemma rebuild_message_ok:
  assumes "case dict_get message ''content'' of JArr c \<Rightarrow> list_all content_item c | _ \<Rightarrow> True"
  shows "\<exists>m. rebuild_message rm i message = Inr m"
proof (cases "dict_get message ''content''")
  case (JArr c)
  with assms have "list_all content_item c" by simp
  then have "list_all is_dict (nths c {j. (i, 0 + j) \<notin> rm})"
    using content_item_is_dict by (auto simp: list_all_iff dest: in_set_nthsD)
  then have "simplify_content (filter_content rm i 0 c) =
             Inr (normalised_content (filter_content rm i 0 c))"
    using simplify_content_dicts by (simp add: filter_content_nths)
  with JArr show ?thesis by (simp add: rebuild_message_def)
qed (simp_all add: rebuild_message_def)

lemma content_items_ok_nth:
  "content_items_ok ms \<Longrightarrow> i < length ms \<Longrightarrow>
     (case dict_get (ms ! i) ''content'' of JArr c \<Rightarrow> list_all content_item c | _ \<Rightarrow> True)"
  by (simp add: content_items_ok_def list_all_length)

lemma extract_content_nil:
  "list_all (\<lambda>x. \<not> is_image_item x) items \<Longrightarrow> extract_content m c items = []"
  by (induction items arbitrary: c) auto

lemma extract_from_nil:
  "(\<And>message c. message \<in> set ms \<Longrightarrow> dict_get message ''content'' = JArr c \<Longrightarrow>
       list_all (\<lambda>x. \<not> is_image_item x) c) \<Longrightarrow> extract_from k ms = []"
proof (induction ms arbitrary: k)
  case Nil
  then show ?case by simp
next
  case (Cons message rest)
  have rest: "extract_from (Suc k) rest = []"
    by (rule Cons.IH) (use Cons.prems in auto)
  show ?case
  proof (cases "dict_get message ''content''")
    case (JArr c)
    with Cons.prems[of message c] have "extract_content k 0 c = []"
      by (simp add: extract_content_nil)
    with JArr rest show ?thesis by simp
  qed (simp_all add: rest)
qed

lemma normalised_without_images:
  "list_all content_item xs \<Longrightarrow> list_all (\<lambda>x. \<not> is_image_item x) xs \<Longrightarrow>
   normalised_content xs = JArr c \<Longrightarrow> list_all (\<lambda>x. \<not> is_image_item x) c"
proof (induction xs rule: normalised_content.induct)
  case (2 d)
  show ?case
  proof (cases "dict_get d ''type'' = JStr ''text''")
    case True
    with "2.prems"(1) have "is_str (dict_get_default d ''text'' (JStr []))" by simp
    moreover from True "2.prems"(3) have "dict_get_default d ''text'' (JStr []) = JArr c" by simp
    ultimately show ?thesis by simp
  next
    case False
    with "2.prems" show ?thesis by auto
  qed
qed auto

text \<open>
  Claim C1 fails where the \<open>text\<close> field of a text item holds a list with an image item
  in it: once the image beside it is removed the text item is alone, the content
  collapses to that list, and extracting from the rebuilt messages finds an image.
\<close>

theorem rebuild_after_extract_counterexample:
  "extract_images nested_image_messages = [(0, 1, image_item)]
   \<and> rebuild_messages nested_image_messages (extract_images nested_image_messages) [] =
       Inr [user_message (JArr [image_item])]
   \<and> extract_images [user_message (JArr [image_item])] = [(0, 0, image_item)]"
  by (simp add: nested_image_messages_def example_defs eval_defs)

text \<open>
  Claim C1, amended. For a message list whose list-typed contents hold only dicts and
  whose text items carry a string text or none: \<open>extract_images\<close> followed by
  \<open>rebuild_messages\<close> with an empty OCR text returns a message list of the same length;
  each list-typed content has lost exactly the items at the extracted coordinates and is
  then normalised, every other message is unchanged; and \<open>extract_images\<close> on the result
  is empty.
\<close>

theorem rebuild_after_extract:
  assumes "content_items_ok ms"
  shows "\<exists>r. rebuild_messages ms (extract_images ms) [] = Inr r
           \<and> length r = length ms
           \<and> (\<forall>i<length ms. r ! i =
                (case dict_get (ms ! i) ''content'' of
                   JArr c \<Rightarrow> dict_set (ms ! i) ''content''
                     (normalised_content (nths c {j. (i, j, c ! j) \<notin> set (extract_images ms)}))
                 | _ \<Rightarrow> ms ! i))
           \<and> extract_images r = []"
proof -
  let ?rm = "images_to_remove (extract_images ms)"
  have "\<exists>r. remove_images ?rm 0 ms = Inr r"
  proof (rule remove_images_total)
    fix i assume "i < length ms"
    from content_items_ok_nth[OF assms this]
    show "\<exists>m. rebuild_message ?rm (0 + i) (ms ! i) = Inr m" by (rule rebuild_message_ok)
  qed
  then obtain r where r: "rebuild_messages ms (extract_images ms) [] = Inr r"
    by (auto simp: rebuild_messages_def append_ocr_text_def)
  from rebuild_messages_no_text[OF r] have
    len: "length r = length ms" and
    each: "\<forall>i<length ms. r ! i =
        (case dict_get (ms ! i) ''content'' of
           JArr c \<Rightarrow> dict_set (ms ! i) ''content'' (normalised_content (nths c {j. (i, j) \<notin> ?rm}))
         | _ \<Rightarrow> ms ! i)"
    by auto
  have each': "r ! i =
        (case dict_get (ms ! i) ''content'' of
           JArr c \<Rightarrow> dict_set (ms ! i) ''content''
             (normalised_content (nths c {j. (i, j, c ! j) \<notin> set (extract_images ms)}))
         | _ \<Rightarrow> ms ! i)" if i: "i < length ms" for i
  proof (cases "dict_get (ms ! i) ''content''")
    case (JArr c)
    with each i removal_matches_images[OF i JArr] show ?thesis by simp
  qed (use each i in simp_all)
  have "extract_from 0 r = []"
  proof (rule extract_from_nil)
    fix message c'
    assume mem: "message \<in> set r" and c': "dict_get message ''content'' = JArr c'"
    from mem obtain i where i: "i < length ms" and m: "message = r ! i"
      using len by (auto simp: in_set_conv_nth)
    show "list_all (\<lambda>x. \<not> is_image_item x) c'"
    proof (cases "dict_get (ms ! i) ''content''")
      case (JArr c)
      let ?kept = "filter (\<lambda>x. \<not> is_image_item x) c"
      from each'[OF i] JArr extracted_are_images[OF i JArr]
      have "message = dict_set (ms ! i) ''content'' (normalised_content ?kept)"
        using m by simp
      with c' have n: "normalised_content ?kept = JArr c'" by (simp add: dict_get_dict_set)
      from content_items_ok_nth[OF assms i] JArr have "list_all content_item c" by simp
      then have "list_all content_item ?kept" by (simp add: list_all_iff)
      moreover have "list_all (\<lambda>x. \<not> is_image_item x) ?kept" by (simp add: list_all_iff)
      ultimately show ?thesis using n by (rule normalised_without_images)
    qed (use each'[OF i] m c' in simp_all)
  qed
  then have "extract_images r = []" by (simp add: extract_images_def)
  with r len each' show ?thesis by blast
qed

theorem rebuild_after_extract_witness:
  "content_items_ok mixed_messages
   \<and> rebuild_messages mixed_messages (extract_images mixed_messages) [] =
       Inr [system_message (JStr ''sys''), user_message (JStr ''look''),
            user_message (JArr [text_item (JStr ''a''), text_item (JStr ''b'')])]
   \<and> extract_images [system_message (JStr ''sys''), user_message (JStr ''look''),
            user_message (JArr [text_item (JStr ''a''), text_item (JStr ''b'')])] = []"
proof -
  have ok: "content_items_ok mixed_messages"
    by (simp add: mixed_messages_def content_items_ok_def example_defs dict_get_def dict_get_default_def)
  have ev: "rebuild_messages mixed_messages (extract_images mixed_messages) [] =
       Inr [system_message (JStr ''sys''), user_message (JStr ''look''),
            user_message (JArr [text_item (JStr ''a''), text_item (JStr ''b'')])]"
    by (simp add: mixed_messages_def example_defs eval_defs)
  from rebuild_after_extract[OF ok] ev
  have "extract_images [system_message (JStr ''sys''), user_message (JStr ''look''),
            user_message (JArr [text_item (JStr ''a''), text_item (JStr ''b'')])] = []"
    by auto
  with ok ev show ?thesis by blast
qed

subsection \<open>Rebuilding with nothing to remove\<close>

lemma filter_content_empty: "filter_content {} m c items = items"
  by (induction items arbitrary: c) auto

lemma simplify_stable: "stable_content c \<Longrightarrow> simplify_content c = Inr (JArr c)"
  unfolding stable_content_def
  by (auto simp: simplify_content_def)

lemma rebuild_message_stable:
  assumes "\<And>c. dict_get message ''content'' = JArr c \<Longrightarrow> stable_content c"
  shows "rebuild_message {} i message = Inr message"
proof (cases "dict_get message ''content''")
  case (JArr c)
  with assms have "simplify_content c = Inr (JArr c)" by (simp add: simplify_stable)
  moreover have "dict_set message ''content'' (JArr c) = message"
    using JArr by (simp add: dict_set_same)
  ultimately show ?thesis using JArr by (simp add: rebuild_message_def filter_content_empty)
qed (simp_all add: rebuild_message_def)

lemma remove_images_stable:
  "(\<And>message c. message \<in> set ms \<Longrightarrow> dict_get message ''content'' = JArr c \<Longrightarrow> stable_content c)
   \<Longrightarrow> remove_images {} k ms = Inr ms"
proof (induction ms arbitrary: k)
  case Nil
  then show ?case by simp
next
  case (Cons message rest)
  have "rebuild_message {} k message = Inr message"
    by (rule rebuild_message_stable) (use Cons.prems in auto)
  moreover have "remove_images {} (Suc k) rest = Inr rest"
    by (rule Cons.IH) (use Cons.prems in auto)
  ultimately show ?case by simp
qed

text \<open>
  Claim C6 fails on a message whose content is a list with one text item: with no image
  to remove and no OCR text the content still collapses to the bare string.
\<close>

theorem rebuild_identity_counterexample:
  "rebuild_messages single_text_messages [] [] = Inr [user_message (JStr ''hi'')]
   \<and> [user_message (JStr ''hi'')] \<noteq> single_text_messages"
  by (simp add: single_text_messages_def example_defs eval_defs)

text \<open>
  Claim C6, amended. \<open>rebuild_messages\<close> with no images and an empty OCR text returns its
  input whenever every list-typed content has at least two items or is a single dict
  item whose type is not \<open>text\<close> (any other list-typed content is collapsed);
  \<open>format_ocr_results\<close> of the empty list is the empty string.
\<close>

theorem rebuild_nothing_to_do:
  assumes "\<forall>message \<in> set ms. \<forall>c. dict_get message ''content'' = JArr c \<longrightarrow> stable_content c"
  shows "rebuild_messages ms [] [] = Inr ms \<and> format_ocr_results [] = []"
proof -
  have "remove_images {} 0 ms = Inr ms"
    by (rule remove_images_stable) (use assms in blast)
  then show ?thesis
    by (simp add: rebuild_messages_def images_to_remove_def append_ocr_text_def format_ocr_results_def)
qed

theorem rebuild_nothing_to_do_witness:
  "list_all (\<lambda>message. case dict_get message ''content'' of JArr c \<Rightarrow> stable_content c | _ \<Rightarrow> True)
     stable_messages
   \<and> rebuild_messages stable_messages [] [] = Inr stable_messages
   \<and> format_ocr_results [] = []"
proof -
  have st: "list_all (\<lambda>message. case dict_get message ''content'' of JArr c \<Rightarrow> stable_content c | _ \<Rightarrow> True)
     stable_messages"
    by (simp add: stable_messages_def example_defs dict_get_def stable_content_def)
  then have "\<forall>message \<in> set stable_messages. \<forall>c. dict_get message ''content'' = JArr c \<longrightarrow> stable_content c"
    by (auto simp: list_all_iff)
  from rebuild_nothing_to_do[OF this] st show ?thesis by blast
qed

subsection \<open>Appending the OCR text\<close>








lemma rebuild_messages_absent_content:
  "rebuild_messages no_content_messages [] ''ocr'' = Inr [user_message (JStr ''ocr'')]"
  by (simp add: no_content_messages_def example_defs eval_defs)





subsection \<open>call_ocr\<close>

lemmas ocr_eval_defs = call_ocr_def ocr_text_of_def ocr_response_def description_body_def
  described_def not_json_def
  test_config_def str_int_def str_nat.simps digit_char_def SQ_def not_subscriptable_def


lemma subscript_key_raises:
  "subscript_key x k = Inl e \<Longrightarrow> (\<exists>m. e = KeyError m) \<or> (\<exists>m. e = TypeError m)"
  by (cases x) (auto simp: not_subscriptable_def split: option.splits)

lemma subscript_zero_raises:
  "subscript_zero x = Inl e \<Longrightarrow> (\<exists>m. e = KeyError m) \<or> (\<exists>m. e = TypeError m) \<or> (\<exists>m. e = IndexError m)"
  by (induction x rule: subscript_zero.induct) (auto simp: not_subscriptable_def)

lemma then_do_Inl:
  "then_do x f = Inl e \<Longrightarrow> x = Inl e \<or> (\<exists>y. x = Inr y \<and> f y = Inl e)"
  by (cases x) auto

lemma ocr_text_of_raises:
  assumes "ocr_text_of body = Inl e"
  shows "(\<exists>m. e = KeyError m) \<or> (\<exists>m. e = TypeError m) \<or> (\<exists>m. e = IndexError m)"
proof -
  from assms have
    "(\<exists>x k. subscript_key x k = Inl e) \<or> (\<exists>x. subscript_zero x = Inl e)"
    unfolding ocr_text_of_def by (blast dest!: then_do_Inl)
  then show ?thesis using subscript_key_raises subscript_zero_raises by blast
qed

lemma call_ocr_index:
  assumes "call_ocr cfg img idx outcome = Inl (OCRError m i)"
  shows "i = idx"
proof (cases outcome)
  case TimeoutException
  with assms show ?thesis by (simp add: call_ocr_def)
next
  case (RequestError e)
  with assms show ?thesis by (simp add: call_ocr_def)
next
  case (Responded r)
  show ?thesis
  proof (cases "status_code r = 200")
    case False
    with assms Responded show ?thesis by (simp add: call_ocr_def)
  next
    case True
    show ?thesis
    proof (cases "json_result r")
      case (Inl msg)
      with assms Responded True show ?thesis by (simp add: call_ocr_def)
    next
      case (Inr body)
      show ?thesis
      proof (cases "ocr_text_of body")
        case (Inl e)
        from ocr_text_of_raises[OF Inl] assms Responded True Inr Inl
        show ?thesis by (auto simp: call_ocr_def)
      next
        case (Inr d)
        with assms Responded True \<open>json_result r = Inr body\<close> show ?thesis by (simp add: call_ocr_def)
      qed
    qed
  qed
qed








subsection \<open>process_images in parallel mode\<close>

lemma length_ocr_tasks: "length (ocr_tasks cfg idx images outcome_of) = length images"
  by (induction images arbitrary: idx) auto

lemma nth_ocr_tasks:
  "k < length images \<Longrightarrow>
     ocr_tasks cfg idx images outcome_of ! k =
       call_ocr cfg (snd (snd (images ! k))) (int (idx + k) + 1) (outcome_of (idx + k))"
proof (induction images arbitrary: idx k)
  case Nil
  then show ?case by simp
next
  case (Cons img rest)
  show ?case
  proof (cases k)
    case 0
    then show ?thesis by simp
  next
    case (Suc k')
    with Cons.prems have "k' < length rest" by simp
    from Cons.IH[OF this, of "Suc idx"] Suc show ?thesis by simp
  qed
qed

lemma settle_slots:
  assumes "length slots = length tasks"
    and "\<forall>k<length tasks. slots ! k = None \<or> slots ! k = Some (tasks ! k)"
  shows "length (fold (\<lambda>k slots. slots[k := Some (tasks ! k)]) completion slots) = length tasks
       \<and> (\<forall>k<length tasks.
            (fold (\<lambda>k slots. slots[k := Some (tasks ! k)]) completion slots ! k = None
               \<or> fold (\<lambda>k slots. slots[k := Some (tasks ! k)]) completion slots ! k = Some (tasks ! k))
          \<and> (k \<in> set completion \<or> slots ! k = Some (tasks ! k) \<longrightarrow>
               fold (\<lambda>k slots. slots[k := Some (tasks ! k)]) completion slots ! k = Some (tasks ! k)))"
  using assms
proof (induction completion arbitrary: slots)
  case Nil
  then show ?case by simp
next
  case (Cons c rest)
  let ?slots = "slots[c := Some (tasks ! c)]"
  have len: "length ?slots = length tasks" using Cons.prems(1) by simp
  have upd: "?slots ! k = (if k = c then Some (tasks ! k) else slots ! k)" if "k < length tasks" for k
    using that Cons.prems(1) by (cases "k = c") simp_all
  have inv: "\<forall>k<length tasks. ?slots ! k = None \<or> ?slots ! k = Some (tasks ! k)"
    using Cons.prems(2) upd by auto
  have step: "\<forall>k<length tasks. (k = c \<or> slots ! k = Some (tasks ! k)) \<longrightarrow> ?slots ! k = Some (tasks ! k)"
    using upd by auto
  from Cons.IH[OF len inv] step show ?case by auto
qed

lemma gather_settled:
  assumes "{..<length tasks} \<subseteq> set completion"
  shows "gather tasks completion = map Some tasks"
proof (rule nth_equalityI)
  let ?f = "\<lambda>k slots. slots[k := Some (tasks ! k)]"
  have s: "length (fold ?f completion (replicate (length tasks) None)) = length tasks
       \<and> (\<forall>k<length tasks.
            (fold ?f completion (replicate (length tasks) None) ! k = None
               \<or> fold ?f completion (replicate (length tasks) None) ! k = Some (tasks ! k))
          \<and> (k \<in> set completion \<or> replicate (length tasks) None ! k = Some (tasks ! k) \<longrightarrow>
               fold ?f completion (replicate (length tasks) None) ! k = Some (tasks ! k)))"
    by (rule settle_slots) simp_all
  then show "length (gather tasks completion) = length (map Some tasks)"
    by (simp add: gather_def)
  fix k assume "k < length (gather tasks completion)"
  then have k: "k < length tasks" using s by (simp add: gather_def)
  then have "k \<in> set completion" using assms by auto
  with s k show "gather tasks completion ! k = map Some tasks ! k"
    by (simp add: gather_def)
qed

lemma unsettled_slot:
  "k \<notin> set completion \<Longrightarrow> k < length slots \<Longrightarrow> slots ! k = None \<Longrightarrow>
     k < length (fold (\<lambda>k slots. slots[k := Some (tasks ! k)]) completion slots)
     \<and> fold (\<lambda>k slots. slots[k := Some (tasks ! k)]) completion slots ! k = None"
proof (induction completion arbitrary: slots)
  case Nil
  then show ?case by simp
next
  case (Cons c rest)
  from Cons.prems have "k \<notin> set rest" "k < length (slots[c := Some (tasks ! c)])"
    "slots[c := Some (tasks ! c)] ! k = None" by auto
  from Cons.IH[OF this] show ?case by simp
qed

lemma gather_unsettled:
  assumes "\<not> {..<length tasks} \<subseteq> set completion"
  shows "\<not> list_all (\<lambda>slot. slot \<noteq> None) (gather tasks completion)"
proof -
  from assms obtain k where k: "k < length tasks" "k \<notin> set completion" by auto
  from unsettled_slot[OF k(2), of "replicate (length tasks) None" tasks] k(1)
  have "k < length (gather tasks completion) \<and> gather tasks completion ! k = None"
    by (simp add: gather_def)
  then show ?thesis by (auto simp: list_all_length)
qed

lemma check_results_first_failure:
  assumes "k < length results" and "results ! k = Inl e"
    and "\<forall>j<k. \<exists>d. results ! j = Inr d"
  shows "check_results idx results = Inl (raised_for (idx + k) e)"
  using assms
proof (induction results arbitrary: idx k)
  case Nil
  then show ?case by simp
next
  case (Cons result rest)
  show ?case
  proof (cases k)
    case 0
    with Cons.prems show ?thesis by simp
  next
    case (Suc k')
    from Cons.prems(3) Suc obtain d where d: "result = Inr d" by fastforce
    have "k' < length rest" "rest ! k' = Inl e" "\<forall>j<k'. \<exists>d. rest ! j = Inr d"
      using Cons.prems Suc by auto
    from Cons.IH[OF this, of "Suc idx"] d Suc show ?thesis by simp
  qed
qed

text \<open>
  Claim C4. In parallel mode, let image \<open>k + 1\<close> be the first image, in image order, whose
  OCR call fails. Then \<open>process_images\<close> returns nothing before every call has settled, and
  once they have, whatever the order of completion, it raises the failure of that image:
  an \<open>OCRError\<close> with ordinal \<open>k + 1\<close>, the call's own exception when that is an \<open>OCRError\<close>.
\<close>

theorem process_images_first_failure:
  assumes "OCR_PARALLEL cfg"
    and "k < length images"
    and "call_ocr cfg (snd (snd (images ! k))) (int k + 1) (outcome_of k) = Inl e"
    and "\<forall>j<k. \<exists>d. call_ocr cfg (snd (snd (images ! j))) (int j + 1) (outcome_of j) = Inr d"
  shows "process_images cfg images outcome_of completion =
           (if {..<length images} \<subseteq> set completion then Some (Inl (raised_for k e)) else None)
       \<and> (\<exists>m. raised_for k e = OCRError m (int k + 1))
       \<and> (\<forall>m i. e = OCRError m i \<longrightarrow> raised_for k e = e)"
proof -
  let ?tasks = "ocr_tasks cfg 0 images outcome_of"
  have len: "length ?tasks = length images" by (rule length_ocr_tasks)
  have ne: "images \<noteq> []" using assms(2) by auto
  have k: "k < length ?tasks" using assms(2) len by simp
  have fail: "?tasks ! k = Inl e" using assms(2,3) by (simp add: nth_ocr_tasks)
  have before: "\<forall>j<k. \<exists>d. ?tasks ! j = Inr d" using assms(2,4) by (simp add: nth_ocr_tasks)
  from check_results_first_failure[OF k fail before, of 0]
  have c: "check_results 0 ?tasks = Inl (raised_for k e)" by simp
  have p: "process_images cfg images outcome_of completion =
           (if {..<length images} \<subseteq> set completion then Some (Inl (raised_for k e)) else None)"
  proof (cases "{..<length images} \<subseteq> set completion")
    case True
    then have "gather ?tasks completion = map Some ?tasks"
      using gather_settled[of ?tasks completion] len by simp
    with assms(1) ne c True show ?thesis
      by (simp add: process_images_def list_all_iff comp_def)
  next
    case False
    then have "\<not> list_all (\<lambda>slot. slot \<noteq> None) (gather ?tasks completion)"
      using gather_unsettled[of ?tasks completion] len by simp
    with assms(1) ne False show ?thesis by (simp add: process_images_def)
  qed
  have tag: "i = int k + 1" if "e = OCRError m i" for m i
    using assms(3) that call_ocr_index by blast
  have t: "\<exists>m. raised_for k e = OCRError m (int k + 1)"
  proof (cases e)
    case (OCRError m i)
    with tag show ?thesis by simp
  qed simp_all
  have same: "\<forall>m i. e = OCRError m i \<longrightarrow> raised_for k e = e" by auto
  from p t same show ?thesis by blast
qed

theorem process_images_first_failure_witness:
  "OCR_PARALLEL test_config
   \<and> call_ocr test_config (snd (snd (three_images ! 0))) (int 0 + 1) (fail_ok_fail 0) =
        Inl (OCRError ''OCR request timed out after 60s'' 1)
   \<and> call_ocr test_config (snd (snd (three_images ! 2))) (int 2 + 1) (fail_ok_fail 2) =
        Inl (OCRError ''OCR API returned status 500: down'' 3)
   \<and> process_images test_config three_images fail_ok_fail [2, 1, 0] =
        Some (Inl (OCRError ''OCR request timed out after 60s'' 1))
   \<and> process_images test_config three_images fail_ok_fail [0, 2, 1] =
        Some (Inl (OCRError ''OCR request timed out after 60s'' 1))
   \<and> process_images test_config three_images fail_ok_fail [2, 0] = None"
proof -
  have 1: "OCR_PARALLEL test_config" by (simp add: test_config_def)
  have 3: "(0::nat) < length three_images" by (simp add: three_images_def)
  have 4: "call_ocr test_config (snd (snd (three_images ! 0))) (int 0 + 1) (fail_ok_fail 0) =
        Inl (OCRError ''OCR request timed out after 60s'' 1)"
    by (simp add: three_images_def fail_ok_fail_def ocr_eval_defs)
  have 5: "\<forall>j<(0::nat). \<exists>d. call_ocr test_config (snd (snd (three_images ! j))) (int j + 1) (fail_ok_fail j) = Inr d"
    by simp
  have 6: "call_ocr test_config (snd (snd (three_images ! 2))) (int 2 + 1) (fail_ok_fail 2) =
        Inl (OCRError ''OCR API returned status 500: down'' 3)"
    by (simp add: three_images_def fail_ok_fail_def ocr_eval_defs)
  have s1: "{..<length three_images} \<subseteq> set [2, 1, 0]" by (auto simp: three_images_def)
  have s2: "{..<length three_images} \<subseteq> set [0, 2, 1]" by (auto simp: three_images_def)
  have s3: "\<not> {..<length three_images} \<subseteq> set [2, 0]" by (auto simp: three_images_def)
  note t = process_images_first_failure[OF 1 3 4 5]
  have a: "process_images test_config three_images fail_ok_fail [2, 1, 0] =
        Some (Inl (OCRError ''OCR request timed out after 60s'' 1))"
    using t[of "[2, 1, 0]"] s1 by simp
  have b: "process_images test_config three_images fail_ok_fail [0, 2, 1] =
        Some (Inl (OCRError ''OCR request timed out after 60s'' 1))"
    using t[of "[0, 2, 1]"] s2 by simp
  have c: "process_images test_config three_images fail_ok_fail [2, 0] = None"
    using t[of "[2, 0]"] s3 by simp
  from 1 4 6 a b c show ?thesis by blast
qed

subsection \<open>Routing and the query string\<close>

lemmas route_defs = proxy_handler_def parse_upstream_url_def is_chat_completions_path_def
  rstrip_slash_def startswith_def endswith_def forward_chat_request_def
  effective_url_def forward_headers_def lower_def lower_char_def dict_get_default_def

text \<open>
  Claim C9, at \<open>POST /http://up/v1/chat/completions?api-version=1\<close>: the request is routed
  to \<open>handle_chat_completions\<close> with the upstream URL taken from the path alone, and the
  call that \<open>forward_chat_request\<close> issues goes to that URL without the query string.
\<close>

theorem chat_request_drops_query:
  "proxy_handler chat_request = Handle_Chat_Completions ''http://up/v1/chat/completions'' None
   \<and> query_params chat_request = ''api-version=1''
   \<and> effective_url (forward_chat_request ''http://up/v1/chat/completions'' [] None)
       = ''http://up/v1/chat/completions''"
  by (simp add: chat_request_def route_defs)

subsection \<open>Headers in passthrough\<close>

lemma update_fresh: "k \<notin> fst ` set al \<Longrightarrow> AList.update k v al = al @ [(k, v)]"
  by (induction al) auto

lemma map_of_header_fold:
  "map_of (fold (\<lambda>(key, v) headers. if lower key \<notin> S then AList.update key v headers else headers) items acc) name
     = (if lower name \<in> S then map_of acc name
        else (case map_of (rev items) name of None \<Rightarrow> map_of acc name | Some v \<Rightarrow> Some v))"
proof (induction items arbitrary: acc)
  case Nil
  then show ?case by simp
next
  case (Cons item items)
  obtain key v where item: "item = (key, v)" by (cases item)
  show ?case
    by (auto simp: item Cons.IH update_conv' map_add_def split: option.splits)
qed

lemma header_fold_distinct_names:
  "distinct (map fst items) \<Longrightarrow> fst ` set acc \<inter> fst ` set items = {} \<Longrightarrow>
   fold (\<lambda>(key, v) headers. if lower key \<notin> S then AList.update key v headers else headers) items acc
     = acc @ filter (\<lambda>(key, v). lower key \<notin> S) items"
proof (induction items arbitrary: acc)
  case Nil
  then show ?case by simp
next
  case (Cons item items)
  obtain key v where item: "item = (key, v)" by (cases item)
  have d: "distinct (map fst items)" using Cons.prems(1) by simp
  show ?case
  proof (cases "lower key \<notin> S")
    case True
    have fresh: "key \<notin> fst ` set acc" using Cons.prems(2) item by auto
    have "fst ` set (acc @ [(key, v)]) \<inter> fst ` set items = {}"
      using Cons.prems item by auto
    from Cons.IH[OF d this] True fresh show ?thesis by (simp add: item update_fresh)
  next
    case False
    have "fst ` set acc \<inter> fst ` set items = {}" using Cons.prems(2) by auto
    from Cons.IH[OF d this] False show ?thesis by (simp add: item)
  qed
qed

lemma forward_headers_lookup:
  "map_of (forward_headers items) name =
     (if lower name \<in> {''host'', ''content-length''} then None else map_of (rev items) name)"
  using map_of_header_fold[of "set [''host'', ''content-length'']" items "[]" name]
  by (simp add: forward_headers_def split: option.splits)

lemma forward_headers_distinct_names:
  "distinct (map fst items) \<Longrightarrow>
     forward_headers items = filter (\<lambda>(key, v). lower key \<notin> {''host'', ''content-length''}) items"
  using header_fold_distinct_names[of items "[]" "set [''host'', ''content-length'']"]
  by (simp add: forward_headers_def)

text \<open>
  Claim C8, at \<open>GET /http://up/v1/models\<close> with the header fields \<open>host: x\<close>,
  \<open>accept: text/html\<close>, \<open>authorization: Bearer t\<close> and \<open>accept: application/json\<close>: the
  request is routed to \<open>passthrough\<close>, and the headers it forwards leave out \<open>host\<close>, as
  the claim says, but also the inbound header \<open>accept: text/html\<close>, which the claim says
  is forwarded unchanged.
\<close>

theorem passthrough_repeated_header:
  "proxy_handler models_request = Passthrough ''http://up/v1/models''
   \<and> (''accept'', ''text/html'') \<in> set (req_headers models_request)
   \<and> lower ''accept'' \<notin> {''host'', ''content-length''}
   \<and> forward_headers (req_headers models_request) =
       [(''accept'', ''application/json''), (''authorization'', ''Bearer t'')]"
  by (simp add: models_request_def route_defs)

end
